theory Spec2Isabelle
  imports Main "HOL-Library.Sublist"
begin

section \<open>The clipboard splitter of split-lines.py\<close>

text \<open>
  The program is one function, \<^verbatim>\<open>split_chinked_lines(file, chunk_size=(2000 - 11))\<close>:
  \<^verbatim>\<open>
    with open(file) as f:
        chunks = []
        prepend = ""
        while True:
            chunk = prepend + f.read(chunk_size - len(prepend))
            if not chunk:
                break
            pyperclip.copy(f"```ansi {chunk}```")
            print("copied chunk to clipboard")
            time.sleep(3)
            prepend = chunk[chunk.rfind('\n') + 1:]
  \<close>
  The embedding follows it line by line. The file is opened in text mode, so what the
  loop sees is the decoded text of the file; that text is the input of the model. The
  program handles no error: a file that cannot be opened or a clipboard that fails ends
  it with an exception, and the model is of the runs in which both work.
\<close>

subsection \<open>Python strings\<close>

text \<open>
  A Python \<^verbatim>\<open>str\<close> is a sequence of Unicode code points and \<^verbatim>\<open>len\<close> counts code
  points, so a string is a list of code points here. \<open>lit\<close> turns a literal of the
  source into such a list; \<open>NL\<close> is the character \<^verbatim>\<open>'\n'\<close>.
\<close>

type_synonym str = "nat list"

definition lit :: "string \<Rightarrow> str" where
  "lit s = map of_char s"

definition NL :: nat where
  "NL = 10"

text \<open>
  \<^verbatim>\<open>s.rfind(c)\<close>: the highest index at which \<open>c\<close> occurs in \<open>s\<close>, and \<open>-1\<close> when it
  does not occur.
\<close>

fun rfind :: "str \<Rightarrow> nat \<Rightarrow> int" where
  "rfind [] c = - 1"
| "rfind (x # xs) c =
     (let r = rfind xs c
      in if 0 \<le> r then r + 1 else if x = c then 0 else - 1)"

text \<open>
  \<^verbatim>\<open>s[i:]\<close>: a negative start counts from the end, and a start outside the string is
  clamped to it.
\<close>

definition slice_from :: "str \<Rightarrow> int \<Rightarrow> str" where
  "slice_from s i = (if i < 0 then drop (nat (int (length s) + i)) s else drop (nat i) s)"

subsection \<open>The file object\<close>

text \<open>
  The file object is the text that has not been read yet. \<^verbatim>\<open>f.read(sz)\<close> returns
  the next \<open>sz\<close> characters, fewer at the end of the file, and everything that is left
  when \<open>sz\<close> is negative. The result is the text read and the text still unread.
\<close>

definition f_read :: "int \<Rightarrow> str \<Rightarrow> str \<times> str" where
  "f_read sz rest =
     (if sz < 0 then (rest, []) else (take (nat sz) rest, drop (nat sz) rest))"

subsection \<open>The effects\<close>

text \<open>
  The calls to the outside world, in the order the program makes them:
  \<^verbatim>\<open>pyperclip.copy(text)\<close>, \<^verbatim>\<open>print(text)\<close> and \<^verbatim>\<open>time.sleep(seconds)\<close>.
\<close>

datatype event = Copy str | Print str | Sleep nat

definition decorate :: "str \<Rightarrow> str" where
  "decorate chunk = lit ''```ansi '' @ chunk @ lit ''```''"

definition effects :: "str \<Rightarrow> event list" where
  "effects chunk = [Copy (decorate chunk), Print (lit ''copied chunk to clipboard''), Sleep 3]"

subsection \<open>The loop\<close>

text \<open>
  The variables the loop changes: the unread text of \<^verbatim>\<open>f\<close> and \<^verbatim>\<open>prepend\<close>.
  (\<^verbatim>\<open>chunks\<close> is assigned once and never used.)
\<close>

record loop_state =
  unread :: str
  prepend :: str

definition default_chunk_size :: int where
  "default_chunk_size = 2000 - 11"

definition start :: "str \<Rightarrow> loop_state" where
  "start content = \<lparr>unread = content, prepend = []\<rparr>"

text \<open>The argument of \<^verbatim>\<open>f.read\<close> in a pass that starts in state \<open>st\<close>.\<close>

definition read_size :: "int \<Rightarrow> loop_state \<Rightarrow> int" where
  "read_size chunk_size st = chunk_size - int (length (prepend st))"

text \<open>The new value of \<^verbatim>\<open>prepend\<close>: \<^verbatim>\<open>chunk[chunk.rfind('\n') + 1:]\<close>.\<close>

definition carry_of :: "str \<Rightarrow> str" where
  "carry_of chunk = slice_from chunk (rfind chunk NL + 1)"

text \<open>
  One pass through the body of \<^verbatim>\<open>while True\<close>. \<open>None\<close> is the \<^verbatim>\<open>break\<close>; otherwise the
  result is the chunk that was copied and the state in which the next pass starts.
\<close>

definition loop_body :: "int \<Rightarrow> loop_state \<Rightarrow> (str \<times> loop_state) option" where
  "loop_body chunk_size st =
     (let (got, rest) = f_read (read_size chunk_size st) (unread st);
          chunk = prepend st @ got
      in if chunk = [] then None
         else Some (chunk, \<lparr>unread = rest, prepend = carry_of chunk\<rparr>))"

text \<open>
  The loop may run forever, so it is a partial function: \<open>None\<close> means that it never
  returns, \<open>Some tr\<close> that it returns after the effects \<open>tr\<close>.
\<close>

partial_function (option) while_loop :: "int \<Rightarrow> loop_state \<Rightarrow> event list \<Rightarrow> event list option" where
  "while_loop chunk_size st tr =
     (case loop_body chunk_size st of
        None \<Rightarrow> Some tr
      | Some (chunk, st') \<Rightarrow> while_loop chunk_size st' (tr @ effects chunk))"

definition split_chinked_lines :: "str \<Rightarrow> int \<Rightarrow> event list option" where
  "split_chinked_lines content chunk_size = while_loop chunk_size (start content) []"

subsection \<open>Observing a run\<close>

text \<open>
  A run that never returns still copies chunks, so a run is also observed pass by pass.
  \<open>iterations n chunk_size st\<close> is the record of the first \<open>n\<close> passes from \<open>st\<close>
  (fewer when the loop breaks earlier): for each pass the state at its start, the
  chunk it copied and the state at its end. \<open>state_after n chunk_size st\<close> is the state
  after \<open>n\<close> whole passes, and \<open>None\<close> when the loop has broken before.
\<close>

type_synonym iteration = "loop_state \<times> str \<times> loop_state"

fun iterations :: "nat \<Rightarrow> int \<Rightarrow> loop_state \<Rightarrow> iteration list" where
  "iterations 0 chunk_size st = []"
| "iterations (Suc n) chunk_size st =
     (case loop_body chunk_size st of
        None \<Rightarrow> []
      | Some (chunk, st') \<Rightarrow> (st, chunk, st') # iterations n chunk_size st')"

fun state_after :: "nat \<Rightarrow> int \<Rightarrow> loop_state \<Rightarrow> loop_state option" where
  "state_after 0 chunk_size st = Some st"
| "state_after (Suc n) chunk_size st =
     (case loop_body chunk_size st of
        None \<Rightarrow> None
      | Some (chunk, st') \<Rightarrow> state_after n chunk_size st')"

definition chunk_of :: "iteration \<Rightarrow> str" where
  "chunk_of it = fst (snd it)"

definition carry_in :: "iteration \<Rightarrow> str" where
  "carry_in it = prepend (fst it)"

definition carry_out :: "iteration \<Rightarrow> str" where
  "carry_out it = prepend (snd (snd it))"

definition events_of :: "iteration list \<Rightarrow> event list" where
  "events_of its = concat (map (\<lambda>it. effects (chunk_of it)) its)"

text \<open>
  What a pass adds to the text copied so far: its chunk without the carry it started
  with. The first pass starts with the empty carry, so its chunk is kept whole.
  \<open>reconstruct\<close> joins these parts of a recorded run.
\<close>

definition new_part :: "iteration \<Rightarrow> str" where
  "new_part it = drop (length (carry_in it)) (chunk_of it)"

definition reconstruct :: "iteration list \<Rightarrow> str" where
  "reconstruct its = concat (map new_part its)"

text \<open>
  A clock that only \<^verbatim>\<open>time.sleep\<close> advances, by the seconds slept: \<open>copy_times now tr\<close>
  lists the reading of that clock at each \<^verbatim>\<open>pyperclip.copy\<close> of the trace \<open>tr\<close>, when
  the trace starts at time \<open>now\<close>.
\<close>

fun copy_times :: "nat \<Rightarrow> event list \<Rightarrow> nat list" where
  "copy_times now [] = []"
| "copy_times now (Copy text # tr) = now # copy_times now tr"
| "copy_times now (Print text # tr) = copy_times now tr"
| "copy_times now (Sleep seconds # tr) = copy_times (now + seconds) tr"

text \<open>
  The invariant of the loop that the proofs use: at the start of a pass, the file's
  text is what has been read followed by what is unread, and \<^verbatim>\<open>prepend\<close> is the carry
  of what has been read.
\<close>

definition read_so_far :: "str \<Rightarrow> loop_state \<Rightarrow> bool" where
  "read_so_far content st \<longleftrightarrow>
     (\<exists>consumed. consumed @ unread st = content \<and> prepend st = carry_of consumed)"

section \<open>Facts about the parts\<close>

subsection \<open>The carry\<close>

lemma rfind_absent: "c \<notin> set s \<Longrightarrow> rfind s c = - 1"
  by (induction s) (auto simp: Let_def)

lemma rfind_last_occurrence: "c \<notin> set post \<Longrightarrow> rfind (pre @ c # post) c = int (length pre)"
  by (induction pre) (auto simp: Let_def rfind_absent)

lemma carry_of_no_newline: "NL \<notin> set s \<Longrightarrow> carry_of s = s"
  by (simp add: carry_of_def slice_from_def rfind_absent)

lemma carry_of_after_newline:
  assumes "NL \<notin> set post"
  shows "carry_of (pre @ NL # post) = post"
proof -
  have "nat (int (length pre) + 1) = Suc (length pre)" by simp
  then show ?thesis
    using assms by (simp add: carry_of_def slice_from_def rfind_last_occurrence)
qed

lemma carry_of_cases:
  obtains (none) "NL \<notin> set s" "carry_of s = s"
  | (some) pre where "s = pre @ NL # carry_of s" "NL \<notin> set (carry_of s)"
proof (cases "NL \<in> set s")
  case False
  then show ?thesis using none carry_of_no_newline by blast
next
  case True
  then obtain pre post where s: "s = pre @ NL # post" and post: "NL \<notin> set post"
    using split_list_last by fastforce
  have "carry_of (pre @ NL # post) = post"
    using post by (rule carry_of_after_newline)
  then have c: "carry_of s = post" by (simp only: s)
  have "s = pre @ NL # carry_of s" by (simp only: c) (rule s)
  moreover have "NL \<notin> set (carry_of s)" by (simp only: c) (rule post)
  ultimately show ?thesis by (rule some)
qed

lemma carry_of_newline_free: "NL \<notin> set (carry_of s)"
  by (cases s rule: carry_of_cases) auto

lemma carry_of_suffix: "suffix (carry_of s) s"
proof (cases s rule: carry_of_cases)
  case none
  then show ?thesis by simp
next
  case (some pre)
  then have "s = (pre @ [NL]) @ carry_of s" by simp
  then show ?thesis by (rule suffixI)
qed

lemma carry_of_length: "length (carry_of s) \<le> length s"
  using carry_of_suffix suffix_length_le by blast

lemma carry_of_append: "carry_of (carry_of xs @ ys) = carry_of (xs @ ys)"
proof (cases "NL \<in> set ys")
  case True
  then obtain p q where ys: "ys = p @ NL # q" and q: "NL \<notin> set q"
    using split_list_last by fastforce
  have "carry_of ((carry_of xs @ p) @ NL # q) = q" "carry_of ((xs @ p) @ NL # q) = q"
    using q by (rule carry_of_after_newline)+
  then show ?thesis by (simp add: ys)
next
  case False
  show ?thesis
  proof (cases xs rule: carry_of_cases)
    case none
    then show ?thesis by simp
  next
    case (some pre)
    have "carry_of (pre @ NL # (carry_of xs @ ys)) = carry_of xs @ ys"
      using some(2) False by (intro carry_of_after_newline) simp
    moreover have "carry_of (carry_of xs @ ys) = carry_of xs @ ys"
      using some(2) False by (intro carry_of_no_newline) simp
    moreover have "xs @ ys = pre @ NL # (carry_of xs @ ys)"
      using some(1) by (metis append_Cons append_assoc)
    ultimately show ?thesis by (simp only:)
  qed
qed

lemma carry_of_empty_iff: "carry_of s = [] \<longleftrightarrow> s = [] \<or> last s = NL"
proof (cases s rule: carry_of_cases)
  case none
  then show ?thesis by (cases s rule: rev_cases) auto
next
  case (some pre)
  show ?thesis
  proof
    assume "carry_of s = []"
    with some(1) have "s = pre @ [NL]" by simp
    then show "s = [] \<or> last s = NL" by (metis last_snoc)
  next
    assume "s = [] \<or> last s = NL"
    with some(1) have "last s = NL" by auto
    show "carry_of s = []"
    proof (rule ccontr)
      assume ne: "carry_of s \<noteq> []"
      then have "last s = last (carry_of s)" using some(1)
        by (metis last_appendR last_ConsR list.distinct(1))
      with \<open>last s = NL\<close> ne some(2) show False by (metis last_in_set)
    qed
  qed
qed

lemma f_read_append: "f_read sz rest = (got, rest') \<Longrightarrow> got @ rest' = rest"
  by (auto simp: f_read_def split: if_splits)

lemma f_read_length: "f_read sz rest = (got, rest') \<Longrightarrow> 0 \<le> sz \<Longrightarrow> int (length got) \<le> sz"
  by (auto simp: f_read_def split: if_splits)

lemma f_read_empty_iff: "f_read sz rest = (got, rest') \<Longrightarrow> got = [] \<longleftrightarrow> sz = 0 \<or> rest = []"
  by (auto simp: f_read_def split: if_splits)

lemma loop_body_SomeE:
  assumes "loop_body chunk_size st = Some (chunk, st')"
  obtains got where "f_read (read_size chunk_size st) (unread st) = (got, unread st')"
    and "chunk = prepend st @ got" and "chunk \<noteq> []" and "prepend st' = carry_of chunk"
  using assms by (auto simp: loop_body_def Let_def split: prod.splits if_splits)

lemma loop_body_None_iff:
  "loop_body chunk_size st = None \<longleftrightarrow>
     prepend st = [] \<and> fst (f_read (read_size chunk_size st) (unread st)) = []"
  by (auto simp: loop_body_def Let_def split: prod.splits if_splits)

subsection \<open>Runs: returning, never returning, invariants\<close>

text \<open>
  The two views of a run agree. The run returns exactly when some pass breaks, and the
  effects it returns with are those of the passes recorded up to there; it never
  returns when every pass that is reached copies a chunk.
\<close>

lemma while_loop_returns:
  assumes "state_after n chunk_size st = Some s" and "loop_body chunk_size s = None"
  shows "while_loop chunk_size st tr = Some (tr @ events_of (iterations n chunk_size st))"
  using assms
proof (induction n arbitrary: st tr)
  case 0
  then show ?case by (subst while_loop.simps) (simp add: events_of_def)
next
  case (Suc n)
  from Suc.prems(1) obtain chunk st' where
    body: "loop_body chunk_size st = Some (chunk, st')" and
    rest: "state_after n chunk_size st' = Some s"
    by (auto split: option.splits)
  have "while_loop chunk_size st tr = while_loop chunk_size st' (tr @ effects chunk)"
    by (subst while_loop.simps) (simp add: body)
  also have "\<dots> = Some ((tr @ effects chunk) @ events_of (iterations n chunk_size st'))"
    using rest Suc.prems(2) by (rule Suc.IH)
  finally show ?case by (simp add: body events_of_def chunk_of_def)
qed

lemma while_loop_SomeD:
  assumes "while_loop chunk_size st tr = Some tr'"
  shows "\<exists>n s. state_after n chunk_size st = Some s \<and> loop_body chunk_size s = None
           \<and> tr' = tr @ events_of (iterations n chunk_size st)"
  using assms
proof (induction rule: while_loop.raw_induct[rotated 1, consumes 1, case_names body])
  case (body while_loop' chunk_size st tr tr')
  show ?case
  proof (cases "loop_body chunk_size st")
    case None
    with body(2) have "tr' = tr" by simp
    then have "state_after 0 chunk_size st = Some st \<and> loop_body chunk_size st = None
        \<and> tr' = tr @ events_of (iterations 0 chunk_size st)"
      using None by (simp add: events_of_def)
    then show ?thesis by blast
  next
    case (Some r)
    obtain chunk st' where r: "r = (chunk, st')" by (cases r)
    from body(2) have "while_loop' chunk_size st' (tr @ effects chunk) = Some tr'"
      by (simp add: Some r)
    from body(1)[OF this] obtain n s where
      "state_after n chunk_size st' = Some s" "loop_body chunk_size s = None"
      "tr' = (tr @ effects chunk) @ events_of (iterations n chunk_size st')"
      by blast
    then have "state_after (Suc n) chunk_size st = Some s \<and> loop_body chunk_size s = None
        \<and> tr' = tr @ events_of (iterations (Suc n) chunk_size st)"
      by (simp add: Some r events_of_def chunk_of_def)
    then show ?thesis by blast
  qed
qed

lemma while_loop_never_returns:
  assumes "\<And>n s. state_after n chunk_size st = Some s \<Longrightarrow> loop_body chunk_size s \<noteq> None"
  shows "while_loop chunk_size st tr = None"
proof (cases "while_loop chunk_size st tr")
  case None
  then show ?thesis .
next
  case (Some tr')
  from while_loop_SomeD[OF this] assms show ?thesis by blast
qed

lemma returned_run_is_recorded:
  assumes "split_chinked_lines content chunk_size = Some tr"
  shows "\<exists>n. tr = events_of (iterations n chunk_size (start content))
           \<and> state_after (Suc n) chunk_size (start content) = None"
proof -
  from assms obtain n s where
    s: "state_after n chunk_size (start content) = Some s" and
    stop: "loop_body chunk_size s = None" and
    tr: "tr = [] @ events_of (iterations n chunk_size (start content))"
    unfolding split_chinked_lines_def by (blast dest: while_loop_SomeD)
  have "state_after (Suc n) chunk_size st = None"
    if "state_after n chunk_size st = Some s" for st
    using that
  proof (induction n arbitrary: st)
    case 0
    then show ?case by (simp add: stop)
  next
    case (Suc n)
    then show ?case by (cases "loop_body chunk_size st") auto
  qed
  with s tr show ?thesis by auto
qed

text \<open>An invariant of the loop holds at the start of every pass.\<close>

lemma state_after_invariant:
  assumes "I st"
    and "\<And>s chunk s'. I s \<Longrightarrow> loop_body chunk_size s = Some (chunk, s') \<Longrightarrow> I s'"
    and "state_after n chunk_size st = Some s"
  shows "I s"
  using assms(1,3)
proof (induction n arbitrary: st)
  case 0
  then show ?case by simp
next
  case (Suc n)
  from Suc.prems(2) obtain chunk st' where
    body: "loop_body chunk_size st = Some (chunk, st')" and
    rest: "state_after n chunk_size st' = Some s"
    by (auto split: option.splits)
  from assms(2)[OF Suc.prems(1) body] rest show ?case by (rule Suc.IH)
qed

lemma iterations_invariant:
  assumes "I st"
    and "\<And>s chunk s'. I s \<Longrightarrow> loop_body chunk_size s = Some (chunk, s') \<Longrightarrow> I s'"
    and "(s, chunk, s') \<in> set (iterations n chunk_size st)"
  shows "I s \<and> loop_body chunk_size s = Some (chunk, s')"
  using assms(1,3)
proof (induction n arbitrary: st)
  case 0
  then show ?case by simp
next
  case (Suc n)
  show ?case
  proof (cases "loop_body chunk_size st")
    case None
    with Suc.prems(2) show ?thesis by simp
  next
    case (Some r)
    obtain c st' where r: "r = (c, st')" by (cases r)
    note body = Some[unfolded r]
    from Suc.prems(2) have
      "(s, chunk, s') = (st, c, st') \<or> (s, chunk, s') \<in> set (iterations n chunk_size st')"
      by (simp add: body)
    then show ?thesis
    proof
      assume "(s, chunk, s') = (st, c, st')"
      with Suc.prems(1) body show ?thesis by simp
    next
      assume "(s, chunk, s') \<in> set (iterations n chunk_size st')"
      with assms(2)[OF Suc.prems(1) body] show ?thesis by (rule Suc.IH)
    qed
  qed
qed

lemma state_after_progress:
  assumes "\<And>k s. state_after k chunk_size st = Some s \<Longrightarrow> loop_body chunk_size s \<noteq> None"
  shows "\<exists>s. state_after n chunk_size st = Some s"
  using assms
proof (induction n arbitrary: st)
  case 0
  then show ?case by simp
next
  case (Suc n)
  have "state_after 0 chunk_size st = Some st" by simp
  from Suc.prems[OF this] obtain chunk st' where
    body: "loop_body chunk_size st = Some (chunk, st')" by auto
  have "\<exists>s. state_after n chunk_size st' = Some s"
  proof (rule Suc.IH)
    fix k s assume "state_after k chunk_size st' = Some s"
    then have "state_after (Suc k) chunk_size st = Some s" by (simp add: body)
    then show "loop_body chunk_size s \<noteq> None" by (rule Suc.prems)
  qed
  then show ?case by (simp add: body)
qed

lemma iterations_length:
  "state_after n chunk_size st = Some s \<Longrightarrow> length (iterations n chunk_size st) = n"
  by (induction n arbitrary: st) (auto split: option.splits)

lemma iterations_body:
  assumes "it \<in> set (iterations n chunk_size st)"
  shows "loop_body chunk_size (fst it) = Some (chunk_of it, snd (snd it))"
proof -
  obtain s chunk s' where it: "it = (s, chunk, s')" by (cases it)
  have "True \<and> loop_body chunk_size s = Some (chunk, s')"
    by (rule iterations_invariant[where I = "\<lambda>_. True"]) (use assms it in auto)
  then show ?thesis by (simp add: it chunk_of_def)
qed

lemma iterations_carry_out:
  assumes "it \<in> set (iterations n chunk_size st)"
  shows "carry_out it = carry_of (chunk_of it)" and "chunk_of it \<noteq> []"
    and "prefix (carry_in it) (chunk_of it)"
  using iterations_body[OF assms]
  by (auto elim!: loop_body_SomeE simp: carry_out_def carry_in_def)

subsection \<open>The bound on \<^verbatim>\<open>prepend\<close>\<close>

lemma prepend_bounded:
  assumes "0 \<le> chunk_size"
  shows "(s, chunk, s') \<in> set (iterations n chunk_size (start content))
    \<Longrightarrow> int (length (prepend s)) \<le> chunk_size \<and> loop_body chunk_size s = Some (chunk, s')"
proof (rule iterations_invariant[where I = "\<lambda>s. int (length (prepend s)) \<le> chunk_size"])
  show "int (length (prepend (start content))) \<le> chunk_size"
    using assms by (simp add: start_def)
next
  fix s chunk s'
  assume I: "int (length (prepend s)) \<le> chunk_size"
    and body: "loop_body chunk_size s = Some (chunk, s')"
  from body obtain got where
    got: "f_read (read_size chunk_size s) (unread s) = (got, unread s')" and
    chunk: "chunk = prepend s @ got" and carry: "prepend s' = carry_of chunk"
    by (rule loop_body_SomeE)
  from I have "0 \<le> read_size chunk_size s" by (simp add: read_size_def)
  with got have "int (length got) \<le> read_size chunk_size s" by (rule f_read_length)
  then have "int (length chunk) \<le> chunk_size" by (simp add: chunk read_size_def)
  moreover have "length (prepend s') \<le> length chunk"
    unfolding carry by (rule carry_of_length)
  ultimately show "int (length (prepend s')) \<le> chunk_size" by linarith
qed

lemma chunk_bounded:
  assumes "0 \<le> chunk_size" and "it \<in> set (iterations n chunk_size (start content))"
  shows "int (length (chunk_of it)) \<le> chunk_size"
proof -
  obtain s chunk s' where it: "it = (s, chunk, s')" by (cases it)
  from assms(2) have "(s, chunk, s') \<in> set (iterations n chunk_size (start content))"
    by (simp add: it)
  from prepend_bounded[OF assms(1) this]
  have I: "int (length (prepend s)) \<le> chunk_size"
    and body: "loop_body chunk_size s = Some (chunk, s')" by simp_all
  from body obtain got where
    got: "f_read (read_size chunk_size s) (unread s) = (got, unread s')" and
    chunk: "chunk = prepend s @ got"
    by (rule loop_body_SomeE)
  from I have "0 \<le> read_size chunk_size s" by (simp add: read_size_def)
  with got have "int (length got) \<le> read_size chunk_size s" by (rule f_read_length)
  then show ?thesis by (simp add: it chunk_of_def chunk read_size_def)
qed

subsection \<open>The carry has no newline\<close>

lemma prepend_newline_free:
  assumes "state_after n chunk_size (start content) = Some st"
  shows "NL \<notin> set (prepend st)"
proof (rule state_after_invariant[where I = "\<lambda>s. NL \<notin> set (prepend s)", OF _ _ assms])
  show "NL \<notin> set (prepend (start content))" by (simp add: start_def)
next
  fix s chunk s'
  assume "loop_body chunk_size s = Some (chunk, s')"
  then show "NL \<notin> set (prepend s')"
    by (auto elim!: loop_body_SomeE simp: carry_of_newline_free)
qed

lemma carry_in_newline_free:
  assumes "it \<in> set (iterations n chunk_size (start content))"
  shows "NL \<notin> set (carry_in it)"
proof -
  obtain s chunk s' where it: "it = (s, chunk, s')" by (cases it)
  have "NL \<notin> set (prepend s) \<and> loop_body chunk_size s = Some (chunk, s')"
  proof (rule iterations_invariant[where I = "\<lambda>s. NL \<notin> set (prepend s)"])
    show "NL \<notin> set (prepend (start content))" by (simp add: start_def)
  next
    fix s chunk s'
    assume "loop_body chunk_size s = Some (chunk, s')"
    then show "NL \<notin> set (prepend s')"
      by (auto elim!: loop_body_SomeE simp: carry_of_newline_free)
  next
    show "(s, chunk, s') \<in> set (iterations n chunk_size (start content))"
      using assms it by simp
  qed
  then show ?thesis by (simp add: it carry_in_def)
qed

subsection \<open>What has been read\<close>

text \<open>
  At the start of every pass \<open>prepend\<close> is the carry of the text read so far, whatever
  the chunk size is. When the file is not empty and does not end with a newline, and
  the chunk size is not 0, such a state never breaks the loop.
\<close>

lemma read_so_far_start: "read_so_far content (start content)"
  by (simp add: read_so_far_def start_def carry_of_no_newline)

lemma read_so_far_step:
  assumes "read_so_far content s" and "loop_body chunk_size s = Some (chunk, s')"
  shows "read_so_far content s'"
proof -
  from assms(1) obtain consumed where
    c: "consumed @ unread s = content" and p: "prepend s = carry_of consumed"
    by (auto simp: read_so_far_def)
  from assms(2) obtain got where
    got: "f_read (read_size chunk_size s) (unread s) = (got, unread s')" and
    chunk: "chunk = prepend s @ got" and carry: "prepend s' = carry_of chunk"
    by (rule loop_body_SomeE)
  from got have "got @ unread s' = unread s" by (rule f_read_append)
  with c have "(consumed @ got) @ unread s' = content" by simp
  moreover have "prepend s' = carry_of (consumed @ got)"
    by (simp add: carry chunk p carry_of_append)
  ultimately show ?thesis unfolding read_so_far_def by blast
qed

lemma read_so_far_progress:
  assumes "content \<noteq> []" and "last content \<noteq> NL" and "chunk_size \<noteq> 0"
    and "read_so_far content s"
  shows "loop_body chunk_size s \<noteq> None"
proof
  assume "loop_body chunk_size s = None"
  then have p: "prepend s = []"
    and g: "fst (f_read (read_size chunk_size s) (unread s)) = []"
    by (simp_all add: loop_body_None_iff)
  from assms(4) obtain consumed where
    c: "consumed @ unread s = content" and pc: "prepend s = carry_of consumed"
    by (auto simp: read_so_far_def)
  have "read_size chunk_size s \<noteq> 0" using assms(3) p by (simp add: read_size_def)
  with g have "unread s = []"
    by (metis f_read_empty_iff prod.collapse)
  with c have "consumed = content" by simp
  with p pc have "carry_of content = []" by simp
  with assms(1,2) show False by (simp add: carry_of_empty_iff)
qed

text \<open>
  A pass that starts with the file exhausted: its carry and its chunk are the trailing
  partial line of the file, and so is the carry it leaves.
\<close>

lemma exhausted_pass:
  assumes "it \<in> set (iterations n chunk_size (start content))" and "unread (fst it) = []"
  shows "carry_in it = carry_of content" and "chunk_of it = carry_of content"
    and "carry_out it = carry_of content" and "chunk_of it \<noteq> []"
proof -
  obtain s chunk s' where its: "it = (s, chunk, s')" by (cases it)
  have "read_so_far content s \<and> loop_body chunk_size s = Some (chunk, s')"
    using read_so_far_start read_so_far_step
  proof (rule iterations_invariant[where I = "read_so_far content"])
    show "(s, chunk, s') \<in> set (iterations n chunk_size (start content))"
      using assms(1) its by simp
  qed
  then have r: "read_so_far content s" and body: "loop_body chunk_size s = Some (chunk, s')"
    by simp_all
  from r assms(2) have p: "prepend s = carry_of content"
    by (auto simp: read_so_far_def its)
  from body obtain got where
    got: "f_read (read_size chunk_size s) (unread s) = (got, unread s')" and
    chunk: "chunk = prepend s @ got" and ne: "chunk \<noteq> []" and
    carry: "prepend s' = carry_of chunk"
    by (rule loop_body_SomeE)
  from got assms(2) have "got = []" by (simp add: its f_read_def split: if_splits)
  with chunk have c: "chunk = prepend s" by simp
  have "carry_of (carry_of content) = carry_of content"
    by (rule carry_of_no_newline) (rule carry_of_newline_free)
  with carry c p have o: "prepend s' = carry_of content" by simp
  show "carry_in it = carry_of content" by (simp add: its carry_in_def p)
  show "chunk_of it = carry_of content" by (simp add: its chunk_of_def c p)
  show "carry_out it = carry_of content" by (simp add: its carry_out_def o)
  show "chunk_of it \<noteq> []" using ne by (simp add: its chunk_of_def)
qed

subsection \<open>A pass that changes nothing\<close>

lemma repeating_pass:
  assumes "loop_body chunk_size st = Some (chunk, st)"
  shows "iterations n chunk_size st = replicate n (st, chunk, st)"
    and "state_after n chunk_size st = Some st"
  by (induction n) (simp_all add: assms)

lemma stall_never_returns:
  assumes "loop_body chunk_size st = Some (chunk, st')"
    and "loop_body chunk_size st' = Some (chunk', st')"
  shows "while_loop chunk_size st tr = None"
proof (rule while_loop_never_returns)
  fix n s assume s: "state_after n chunk_size st = Some s"
  show "loop_body chunk_size s \<noteq> None"
  proof (cases n)
    case 0
    with s assms(1) show ?thesis by simp
  next
    case (Suc m)
    with s assms(1) have "state_after m chunk_size st' = Some s" by simp
    with repeating_pass(2)[OF assms(2), of m] have "s = st'" by simp
    with assms(2) show ?thesis by simp
  qed
qed

lemma stall_first_pass:
  assumes "NL \<notin> set content" and "0 < chunk_size" and "chunk_size < int (length content)"
  shows "loop_body chunk_size (start content)
    = Some (take (nat chunk_size) content,
        \<lparr>unread = drop (nat chunk_size) content, prepend = take (nat chunk_size) content\<rparr>)"
proof -
  have "NL \<notin> set (take (nat chunk_size) content)"
    using assms(1) by (meson in_set_takeD)
  then have "carry_of (take (nat chunk_size) content) = take (nat chunk_size) content"
    by (rule carry_of_no_newline)
  moreover have "take (nat chunk_size) content \<noteq> []"
    using assms(2,3) by auto
  ultimately show ?thesis
    using assms(2) by (simp add: loop_body_def start_def read_size_def f_read_def)
qed

lemma stall_next_pass:
  assumes "NL \<notin> set content" and "0 < chunk_size" and "chunk_size < int (length content)"
  shows "loop_body chunk_size
      \<lparr>unread = drop (nat chunk_size) content, prepend = take (nat chunk_size) content\<rparr>
    = Some (take (nat chunk_size) content,
        \<lparr>unread = drop (nat chunk_size) content, prepend = take (nat chunk_size) content\<rparr>)"
proof -
  have "NL \<notin> set (take (nat chunk_size) content)"
    using assms(1) by (meson in_set_takeD)
  then have "carry_of (take (nat chunk_size) content) = take (nat chunk_size) content"
    by (rule carry_of_no_newline)
  moreover have "take (nat chunk_size) content \<noteq> []"
    using assms(2,3) by auto
  moreover have "int (length (take (nat chunk_size) content)) = chunk_size"
    using assms(2,3) by simp
  ultimately show ?thesis
    by (simp add: loop_body_def read_size_def f_read_def Let_def)
qed

subsection \<open>Putting the chunks together again\<close>

lemma new_part_pass:
  assumes "loop_body chunk_size st = Some (chunk, st')"
  shows "new_part (st, chunk, st') @ unread st' = unread st"
proof -
  from assms obtain got where
    got: "f_read (read_size chunk_size st) (unread st) = (got, unread st')" and
    chunk: "chunk = prepend st @ got"
    by (rule loop_body_SomeE)
  from got have "got @ unread st' = unread st" by (rule f_read_append)
  then show ?thesis by (simp add: new_part_def carry_in_def chunk_of_def chunk)
qed

lemma reconstruct_read:
  "state_after n chunk_size st = Some s \<Longrightarrow>
     reconstruct (iterations n chunk_size st) @ unread s = unread st"
proof (induction n arbitrary: st)
  case 0
  then show ?case by (simp add: reconstruct_def)
next
  case (Suc n)
  from Suc.prems obtain chunk st' where
    body: "loop_body chunk_size st = Some (chunk, st')" and
    rest: "state_after n chunk_size st' = Some s"
    by (auto split: option.splits)
  from Suc.IH[OF rest] have "reconstruct (iterations n chunk_size st') @ unread s = unread st'" .
  moreover have "reconstruct (iterations (Suc n) chunk_size st)
      = new_part (st, chunk, st') @ reconstruct (iterations n chunk_size st')"
    by (simp add: body reconstruct_def)
  ultimately show ?case using new_part_pass[OF body] by simp
qed

text \<open>
  A run that returns, with a chunk size other than 0, has copied the whole file: the
  new parts of its chunks, joined, are the text of the file.
\<close>

lemma returned_run_reconstructs:
  assumes "split_chinked_lines content chunk_size = Some tr" and "chunk_size \<noteq> 0"
  shows "\<exists>n. tr = events_of (iterations n chunk_size (start content))
           \<and> reconstruct (iterations n chunk_size (start content)) = content"
proof -
  from assms(1) obtain n s where
    s: "state_after n chunk_size (start content) = Some s" and
    stop: "loop_body chunk_size s = None" and
    tr: "tr = [] @ events_of (iterations n chunk_size (start content))"
    unfolding split_chinked_lines_def by (blast dest: while_loop_SomeD)
  from stop have p: "prepend s = []"
    and g: "fst (f_read (read_size chunk_size s) (unread s)) = []"
    by (simp_all add: loop_body_None_iff)
  have "read_size chunk_size s \<noteq> 0" using assms(2) p by (simp add: read_size_def)
  with g have "unread s = []"
    by (metis f_read_empty_iff prod.collapse)
  with reconstruct_read[OF s]
  have "reconstruct (iterations n chunk_size (start content)) = content"
    by (simp add: start_def)
  with tr show ?thesis by auto
qed

subsection \<open>The effects of a recorded run\<close>

lemma Copy_in_events_of:
  "Copy t \<in> set (events_of its) \<longleftrightarrow> (\<exists>it \<in> set its. t = decorate (chunk_of it))"
  by (auto simp: events_of_def effects_def)

lemma decorate_length: "length (decorate chunk) = length chunk + 11"
  by (simp add: decorate_def lit_def)

lemma copy_times_events_of:
  "length (copy_times now (events_of its)) = length its"
  "i < length its \<Longrightarrow> copy_times now (events_of its) ! i = now + 3 * i"
proof -
  have step: "copy_times now (events_of (it # its)) = now # copy_times (now + 3) (events_of its)"
    for now it its
    by (simp add: events_of_def effects_def)
  show "length (copy_times now (events_of its)) = length its"
  proof (induction its arbitrary: now)
    case Nil
    then show ?case by (simp add: events_of_def)
  next
    case (Cons it its)
    then show ?case by (simp add: step)
  qed
  show "i < length its \<Longrightarrow> copy_times now (events_of its) ! i = now + 3 * i"
  proof (induction its arbitrary: now i)
    case Nil
    then show ?case by simp
  next
    case (Cons it its)
    then show ?case by (cases i) (simp_all add: step)
  qed
qed

text \<open>The effects of the pass with index \<open>i\<close> stand at the places \<open>3 * i\<close> to \<open>3 * i + 2\<close> of the trace.\<close>

lemma events_of_Cons: "events_of (it # its) = effects (chunk_of it) @ events_of its"
  by (simp add: events_of_def)

lemma events_of_pass:
  "i < length its \<Longrightarrow> take 3 (drop (3 * i) (events_of its)) = effects (chunk_of (its ! i))"
proof (induction its arbitrary: i)
  case Nil
  then show ?case by simp
next
  case (Cons it its)
  have len: "length (effects (chunk_of it)) = 3" by (simp add: effects_def)
  show ?case
  proof (cases i)
    case 0
    then show ?thesis by (simp add: events_of_Cons len)
  next
    case (Suc j)
    with Cons.prems have j: "j < length its" by simp
    have "drop (3 * Suc j) (effects (chunk_of it) @ events_of its) = drop (3 * j) (events_of its)"
      by (simp add: len)
    with Cons.IH[OF j] show ?thesis by (simp add: Suc events_of_Cons)
  qed
qed

lemma events_of_replicate:
  "events_of (replicate n it) = concat (replicate n (effects (chunk_of it)))"
  by (simp add: events_of_def)

subsection \<open>Some passes, evaluated\<close>

lemma loop_body_empty_file: "loop_body chunk_size (start []) = None"
  by (simp add: loop_body_def start_def f_read_def)

text \<open>
  With chunk size 0 every read asks for no character, so the first pass breaks and
  nothing is copied, whatever the file holds.
\<close>

lemma zero_chunk_size_copies_nothing: "split_chinked_lines content 0 = Some []"
  unfolding split_chinked_lines_def
  by (subst while_loop.simps) (simp add: loop_body_def start_def read_size_def f_read_def)

lemma scenario_pass1:
  "loop_body 4 (start (lit ''a\<newline>b\<newline>c\<newline>''))
     = Some (lit ''a\<newline>b\<newline>'', \<lparr>unread = lit ''c\<newline>'', prepend = []\<rparr>)"
  by (simp add: loop_body_def start_def read_size_def f_read_def carry_of_def
      slice_from_def lit_def NL_def Let_def)

lemma scenario_pass2:
  "loop_body 4 \<lparr>unread = lit ''c\<newline>'', prepend = []\<rparr>
     = Some (lit ''c\<newline>'', \<lparr>unread = [], prepend = []\<rparr>)"
  by (simp add: loop_body_def read_size_def f_read_def carry_of_def
      slice_from_def lit_def NL_def Let_def)

lemma scenario_pass3:
  "loop_body 4 \<lparr>unread = [], prepend = []\<rparr> = None"
  by (simp add: loop_body_def read_size_def f_read_def)

lemma start_pass_abcdef:
  "loop_body 4 (start (lit ''abcdef''))
     = Some (lit ''abcd'', \<lparr>unread = lit ''ef'', prepend = lit ''abcd''\<rparr>)"
  by (simp add: loop_body_def start_def read_size_def f_read_def carry_of_def
      slice_from_def lit_def NL_def Let_def)

lemma stall_pass_abcdef:
  "loop_body 4 \<lparr>unread = lit ''ef'', prepend = lit ''abcd''\<rparr>
     = Some (lit ''abcd'', \<lparr>unread = lit ''ef'', prepend = lit ''abcd''\<rparr>)"
  by (simp add: loop_body_def read_size_def f_read_def carry_of_def
      slice_from_def lit_def NL_def Let_def)

lemma two_passes_abcdef:
  "iterations 2 4 (start (lit ''abcdef''))
     = [(start (lit ''abcdef''), lit ''abcd'', \<lparr>unread = lit ''ef'', prepend = lit ''abcd''\<rparr>),
        (\<lparr>unread = lit ''ef'', prepend = lit ''abcd''\<rparr>, lit ''abcd'',
         \<lparr>unread = lit ''ef'', prepend = lit ''abcd''\<rparr>)]"
  by (simp add: numeral_2_eq_2 start_pass_abcdef stall_pass_abcdef)

lemma pass_ab_cd_1:
  "loop_body 4 (start (lit ''ab\<newline>cd''))
     = Some (lit ''ab\<newline>c'', \<lparr>unread = lit ''d'', prepend = lit ''c''\<rparr>)"
  by (simp add: loop_body_def start_def read_size_def f_read_def carry_of_def
      slice_from_def lit_def NL_def Let_def)

lemma pass_a_b_1:
  "loop_body 4 (start (lit ''a\<newline>b''))
     = Some (lit ''a\<newline>b'', \<lparr>unread = [], prepend = lit ''b''\<rparr>)"
  by (simp add: loop_body_def start_def read_size_def f_read_def carry_of_def
      slice_from_def lit_def NL_def Let_def)

lemma pass_a_b_2:
  "loop_body 4 \<lparr>unread = [], prepend = lit ''b''\<rparr>
     = Some (lit ''b'', \<lparr>unread = [], prepend = lit ''b''\<rparr>)"
  by (simp add: loop_body_def read_size_def f_read_def carry_of_def
      slice_from_def lit_def NL_def Let_def)

lemma pass_ab_default:
  "loop_body default_chunk_size (start (lit ''ab''))
     = Some (lit ''ab'', \<lparr>unread = [], prepend = lit ''ab''\<rparr>)"
  by (simp add: loop_body_def start_def read_size_def f_read_def carry_of_def
      slice_from_def lit_def NL_def Let_def default_chunk_size_def)

section \<open>The claims\<close>

text \<open>
  C1. The claim: for every file, the chunks that were copied, each without the carry it
  started with, join to the text of the file. The code fails it on a file with a line
  that does not fit in a chunk. On the file \<^verbatim>\<open>"abcdef"\<close> with chunk size 4 the run never
  returns; whatever number of passes is observed, the new parts of the chunks copied
  so far join to \<^verbatim>\<open>"abcd"\<close> (once one pass is done) and never to the text of the file:
  \<^verbatim>\<open>"ef"\<close> is never read. What does hold is \<open>reconstruct_read\<close> (the joined new parts
  are always what has been read) and \<open>returned_run_reconstructs\<close> (a run that returns
  has copied the whole file).
\<close>

theorem long_line_is_never_completed:
  "split_chinked_lines (lit ''abcdef'') 4 = None
   \<and> (\<forall>n. reconstruct (iterations (Suc n) 4 (start (lit ''abcdef''))) = lit ''abcd'')
   \<and> (\<forall>n. reconstruct (iterations n 4 (start (lit ''abcdef''))) \<noteq> lit ''abcdef'')"
proof -
  let ?stalled = "\<lparr>unread = lit ''ef'', prepend = lit ''abcd''\<rparr>"
  have never: "split_chinked_lines (lit ''abcdef'') 4 = None"
    unfolding split_chinked_lines_def
    using start_pass_abcdef stall_pass_abcdef by (rule stall_never_returns)
  have first: "new_part (start (lit ''abcdef''), lit ''abcd'', ?stalled) = lit ''abcd''"
    by (simp add: new_part_def carry_in_def chunk_of_def start_def)
  have again: "new_part (?stalled, lit ''abcd'', ?stalled) = []"
    by (simp add: new_part_def carry_in_def chunk_of_def lit_def)
  have part: "reconstruct (iterations (Suc n) 4 (start (lit ''abcdef''))) = lit ''abcd''" for n
  proof -
    have "concat (replicate n ([]::str)) = []" by (induction n) simp_all
    then show ?thesis
      by (simp add: start_pass_abcdef repeating_pass(1)[OF stall_pass_abcdef]
          reconstruct_def first again)
  qed
  have "reconstruct (iterations n 4 (start (lit ''abcdef''))) \<noteq> lit ''abcdef''" for n
  proof (cases n)
    case 0
    then show ?thesis by (simp add: reconstruct_def lit_def)
  next
    case (Suc m)
    have "lit ''abcd'' \<noteq> lit ''abcdef''" by (simp add: lit_def)
    then show ?thesis unfolding Suc part .
  qed
  with never part show ?thesis by blast
qed

text \<open>
  C2. For every file that is not empty and does not end with a newline, the loop never
  terminates: the run does not return, and any number \<open>n\<close> of passes is completed.
  In every pass that starts with the file exhausted, the chunk is exactly the carry,
  which is the trailing partial line of the file (\<open>carry_of content\<close>, not empty), the
  carry stays the same for the next pass, and the pass hands that line to the
  clipboard: the effects of the pass with index \<open>i\<close>, at the places \<open>3 * i\<close> onwards of
  the trace, are \<^verbatim>\<open>pyperclip.copy\<close> of the decorated line, the message and the pause.
  Nothing is assumed about the length of the lines, so this covers files whose lines
  are all shorter than the chunk size. It holds for every chunk size but 0, the default
  one among them (with chunk size 0 the first pass breaks,
  \<open>zero_chunk_size_copies_nothing\<close>).
\<close>

theorem no_final_newline_never_returns:
  assumes "content \<noteq> []" and "last content \<noteq> NL" and "chunk_size \<noteq> 0"
  shows "split_chinked_lines content chunk_size = None
    \<and> length (iterations n chunk_size (start content)) = n
    \<and> (\<forall>it \<in> set (iterations n chunk_size (start content)).
          unread (fst it) = [] \<longrightarrow>
            carry_in it = carry_of content \<and> chunk_of it = carry_in it
            \<and> carry_out it = carry_in it \<and> chunk_of it \<noteq> []
            \<and> Copy (decorate (carry_of content))
                 \<in> set (events_of (iterations n chunk_size (start content))))
    \<and> (\<forall>i < n. unread (fst (iterations n chunk_size (start content) ! i)) = [] \<longrightarrow>
          take 3 (drop (3 * i) (events_of (iterations n chunk_size (start content))))
            = [Copy (decorate (carry_of content)), Print (lit ''copied chunk to clipboard''),
               Sleep 3])"
proof (intro conjI ballI impI allI)
  have reach: "read_so_far content s" if "state_after k chunk_size (start content) = Some s" for k s
    using read_so_far_start read_so_far_step that
    by (rule state_after_invariant[where I = "read_so_far content"])
  have alive: "loop_body chunk_size s \<noteq> None"
    if "state_after k chunk_size (start content) = Some s" for k s
    using assms reach[OF that] by (rule read_so_far_progress)
  show "split_chinked_lines content chunk_size = None"
    unfolding split_chinked_lines_def using alive by (rule while_loop_never_returns)
  from state_after_progress[of chunk_size "start content" n] alive
  obtain s where "state_after n chunk_size (start content) = Some s" by blast
  then show len: "length (iterations n chunk_size (start content)) = n"
    by (rule iterations_length)
  fix i
  assume i: "i < n"
    and exhausted: "unread (fst (iterations n chunk_size (start content) ! i)) = []"
  let ?its = "iterations n chunk_size (start content)"
  from i len have il: "i < length ?its" by simp
  then have "?its ! i \<in> set ?its" by (rule nth_mem)
  from exhausted_pass(2)[OF this exhausted]
  have "effects (chunk_of (?its ! i))
      = [Copy (decorate (carry_of content)), Print (lit ''copied chunk to clipboard''), Sleep 3]"
    by (simp add: effects_def)
  with events_of_pass[OF il]
  show "take 3 (drop (3 * i) (events_of ?its))
      = [Copy (decorate (carry_of content)), Print (lit ''copied chunk to clipboard''), Sleep 3]"
    by simp
next
  fix it
  assume it: "it \<in> set (iterations n chunk_size (start content))"
    and exhausted: "unread (fst it) = []"
  note e = exhausted_pass[OF it exhausted]
  show "carry_in it = carry_of content" by (rule e(1))
  show "chunk_of it = carry_in it" by (simp add: e(1,2))
  show "carry_out it = carry_in it" by (simp add: e(1,3))
  show "chunk_of it \<noteq> []" by (rule e(4))
  have "decorate (carry_of content) = decorate (chunk_of it)" by (simp add: e(2))
  with it show "Copy (decorate (carry_of content))
      \<in> set (events_of (iterations n chunk_size (start content)))"
    unfolding Copy_in_events_of by (rule rev_bexI)
qed

text \<open>
  The file \<^verbatim>\<open>"a\nb"\<close> with chunk size 4: both lines are shorter than the chunk size,
  the second pass (index 1) starts with the file exhausted and copies the decorated
  carry \<^verbatim>\<open>"b"\<close>.
\<close>

theorem no_final_newline_never_returns_witness:
  "lit ''a\<newline>b'' \<noteq> [] \<and> last (lit ''a\<newline>b'') \<noteq> NL \<and> (4::int) \<noteq> 0
   \<and> split_chinked_lines (lit ''a\<newline>b'') 4 = None
   \<and> length (iterations 2 4 (start (lit ''a\<newline>b''))) = 2
   \<and> (\<lparr>unread = [], prepend = lit ''b''\<rparr>, lit ''b'', \<lparr>unread = [], prepend = lit ''b''\<rparr>)
        \<in> set (iterations 2 4 (start (lit ''a\<newline>b'')))
   \<and> chunk_of (\<lparr>unread = [], prepend = lit ''b''\<rparr>, lit ''b'', \<lparr>unread = [], prepend = lit ''b''\<rparr>)
        = carry_of (lit ''a\<newline>b'')
   \<and> Copy (decorate (carry_of (lit ''a\<newline>b'')))
        \<in> set (events_of (iterations 2 4 (start (lit ''a\<newline>b''))))
   \<and> (1::nat) < 2
   \<and> unread (fst (iterations 2 4 (start (lit ''a\<newline>b'')) ! 1)) = []
   \<and> take 3 (drop (3 * 1) (events_of (iterations 2 4 (start (lit ''a\<newline>b'')))))
        = [Copy (decorate (carry_of (lit ''a\<newline>b''))), Print (lit ''copied chunk to clipboard''),
           Sleep 3]
   \<and> carry_of (lit ''a\<newline>b'') = lit ''b''"
proof -
  let ?s = "\<lparr>unread = [], prepend = lit ''b''\<rparr>"
  have h: "lit ''a\<newline>b'' \<noteq> []" "last (lit ''a\<newline>b'') \<noteq> NL" "(4::int) \<noteq> 0"
    by (simp_all add: lit_def NL_def)
  have its: "iterations 2 4 (start (lit ''a\<newline>b''))
      = [(start (lit ''a\<newline>b''), lit ''a\<newline>b'', ?s), (?s, lit ''b'', ?s)]"
    by (simp add: numeral_2_eq_2 pass_a_b_1 pass_a_b_2)
  have m: "(?s, lit ''b'', ?s) \<in> set (iterations 2 4 (start (lit ''a\<newline>b'')))"
    by (simp add: its)
  have e: "unread (fst (?s, lit ''b'', ?s)) = []" by simp
  have i: "(1::nat) < 2" by simp
  have ei: "unread (fst (iterations 2 4 (start (lit ''a\<newline>b'')) ! 1)) = []"
    by (simp add: its)
  have c: "carry_of (lit ''a\<newline>b'') = lit ''b''"
    by (simp add: carry_of_def slice_from_def lit_def NL_def Let_def)
  note inst = no_final_newline_never_returns[OF h, of 2]
  from inst have 1: "split_chinked_lines (lit ''a\<newline>b'') 4 = None"
    and 2: "length (iterations 2 4 (start (lit ''a\<newline>b''))) = 2" by blast+
  from inst m e have 3: "chunk_of (?s, lit ''b'', ?s) = carry_of (lit ''a\<newline>b'')"
    and 4: "Copy (decorate (carry_of (lit ''a\<newline>b'')))
        \<in> set (events_of (iterations 2 4 (start (lit ''a\<newline>b''))))"
    by (metis, blast)
  from inst i ei have 5: "take 3 (drop (3 * 1) (events_of (iterations 2 4 (start (lit ''a\<newline>b'')))))
        = [Copy (decorate (carry_of (lit ''a\<newline>b''))), Print (lit ''copied chunk to clipboard''),
           Sleep 3]"
    by blast
  from h 1 2 m 3 4 i ei 5 c show ?thesis by (intro conjI)
qed

text \<open>
  C3. For every file and every positive chunk size, the chunk copied in any pass of the
  run has at most \<open>chunk_size\<close> characters (before decoration). The passes are all the
  passes of the run, those that copy only the carry included.
\<close>

theorem chunk_length_at_most_chunk_size:
  assumes "0 < chunk_size" and "it \<in> set (iterations n chunk_size (start content))"
  shows "int (length (chunk_of it)) \<le> chunk_size"
  using assms by (intro chunk_bounded) simp_all

text \<open>
  The second pass on \<^verbatim>\<open>"abcdef"\<close> with chunk size 4 copies the carry alone, 4 characters.
\<close>

theorem chunk_length_at_most_chunk_size_witness:
  "(0::int) < 4
   \<and> (\<lparr>unread = lit ''ef'', prepend = lit ''abcd''\<rparr>, lit ''abcd'', \<lparr>unread = lit ''ef'', prepend = lit ''abcd''\<rparr>)
        \<in> set (iterations 2 4 (start (lit ''abcdef'')))
   \<and> int (length (chunk_of (\<lparr>unread = lit ''ef'', prepend = lit ''abcd''\<rparr>, lit ''abcd'',
         \<lparr>unread = lit ''ef'', prepend = lit ''abcd''\<rparr>))) \<le> 4"
proof -
  let ?st = "\<lparr>unread = lit ''ef'', prepend = lit ''abcd''\<rparr>"
  have p: "(0::int) < 4" by simp
  have m: "(?st, lit ''abcd'', ?st) \<in> set (iterations 2 4 (start (lit ''abcdef'')))"
    by (simp add: numeral_2_eq_2 start_pass_abcdef stall_pass_abcdef)
  from chunk_length_at_most_chunk_size[OF p m] p m show ?thesis by blast
qed

text \<open>
  C4. On the file \<^verbatim>\<open>"a\nb\nc\n"\<close> with chunk size 4 the run returns, and its effects are
  exactly two copies, of the decorated chunks \<^verbatim>\<open>"a\nb\n"\<close> and \<^verbatim>\<open>"c\n"\<close> in that order (each
  followed by the message and the pause). The carry is empty after each of the two
  passes, and the third pass is the one that breaks: three passes are asked for and two
  are recorded.
\<close>

theorem scenario_two_chunks:
  "split_chinked_lines (lit ''a\<newline>b\<newline>c\<newline>'') 4
     = Some [Copy (decorate (lit ''a\<newline>b\<newline>'')), Print (lit ''copied chunk to clipboard''), Sleep 3,
             Copy (decorate (lit ''c\<newline>'')), Print (lit ''copied chunk to clipboard''), Sleep 3]
   \<and> map (\<lambda>it. (chunk_of it, carry_out it)) (iterations 3 4 (start (lit ''a\<newline>b\<newline>c\<newline>'')))
     = [(lit ''a\<newline>b\<newline>'', []), (lit ''c\<newline>'', [])]"
proof
  have "state_after 2 4 (start (lit ''a\<newline>b\<newline>c\<newline>'')) = Some \<lparr>unread = [], prepend = []\<rparr>"
    by (simp add: numeral_2_eq_2 scenario_pass1 scenario_pass2)
  from while_loop_returns[OF this scenario_pass3, of "[]"]
  show "split_chinked_lines (lit ''a\<newline>b\<newline>c\<newline>'') 4
     = Some [Copy (decorate (lit ''a\<newline>b\<newline>'')), Print (lit ''copied chunk to clipboard''), Sleep 3,
             Copy (decorate (lit ''c\<newline>'')), Print (lit ''copied chunk to clipboard''), Sleep 3]"
    by (simp add: split_chinked_lines_def numeral_2_eq_2 scenario_pass1 scenario_pass2
        events_of_def effects_def chunk_of_def)
  show "map (\<lambda>it. (chunk_of it, carry_out it)) (iterations 3 4 (start (lit ''a\<newline>b\<newline>c\<newline>'')))
     = [(lit ''a\<newline>b\<newline>'', []), (lit ''c\<newline>'', [])]"
    by (simp add: numeral_3_eq_3 scenario_pass1 scenario_pass2 scenario_pass3
        chunk_of_def carry_out_def)
qed

text \<open>
  C5. After every pass the new carry is the part of the chunk strictly after its last
  newline: when the chunk has a newline, the chunk is some text, a newline and the
  carry, and the carry has no newline; when the chunk has no newline, the carry is the
  whole chunk. This holds for the passes of a run from any state.
\<close>

theorem carry_is_trailing_partial_line:
  assumes "it \<in> set (iterations n chunk_size st)"
  shows "(NL \<in> set (chunk_of it) \<longrightarrow>
            (\<exists>pre. chunk_of it = pre @ NL # carry_out it) \<and> NL \<notin> set (carry_out it))
         \<and> (NL \<notin> set (chunk_of it) \<longrightarrow> carry_out it = chunk_of it)"
proof -
  have c: "carry_out it = carry_of (chunk_of it)"
    using assms by (rule iterations_carry_out)
  show ?thesis
  proof (cases "chunk_of it" rule: carry_of_cases)
    case none
    then show ?thesis by (simp add: c)
  next
    case (some pre)
    then show ?thesis unfolding c by (metis in_set_conv_decomp)
  qed
qed

text \<open>
  Both cases: the first pass on \<^verbatim>\<open>"a\nb\nc\n"\<close> (the chunk ends with a newline, the carry
  is empty) and the first pass on \<^verbatim>\<open>"abcdef"\<close> (no newline, the carry is the chunk),
  with chunk size 4.
\<close>

theorem carry_is_trailing_partial_line_witness:
  "(start (lit ''a\<newline>b\<newline>c\<newline>''), lit ''a\<newline>b\<newline>'', \<lparr>unread = lit ''c\<newline>'', prepend = []\<rparr>)
      \<in> set (iterations 1 4 (start (lit ''a\<newline>b\<newline>c\<newline>'')))
   \<and> NL \<in> set (lit ''a\<newline>b\<newline>'')
   \<and> (\<exists>pre. lit ''a\<newline>b\<newline>'' = pre @ NL # [])
   \<and> (start (lit ''abcdef''), lit ''abcd'', \<lparr>unread = lit ''ef'', prepend = lit ''abcd''\<rparr>)
      \<in> set (iterations 1 4 (start (lit ''abcdef'')))
   \<and> NL \<notin> set (lit ''abcd'')
   \<and> carry_out (start (lit ''abcdef''), lit ''abcd'', \<lparr>unread = lit ''ef'', prepend = lit ''abcd''\<rparr>)
       = lit ''abcd''"
proof -
  let ?it1 = "(start (lit ''a\<newline>b\<newline>c\<newline>''), lit ''a\<newline>b\<newline>'', \<lparr>unread = lit ''c\<newline>'', prepend = []\<rparr>)"
  let ?it2 = "(start (lit ''abcdef''), lit ''abcd'', \<lparr>unread = lit ''ef'', prepend = lit ''abcd''\<rparr>)"
  have m1: "?it1 \<in> set (iterations 1 4 (start (lit ''a\<newline>b\<newline>c\<newline>'')))"
    by (simp add: scenario_pass1)
  have m2: "?it2 \<in> set (iterations 1 4 (start (lit ''abcdef'')))"
    by (simp add: start_pass_abcdef)
  have n1: "NL \<in> set (lit ''a\<newline>b\<newline>'')" by (simp add: lit_def NL_def)
  have n2: "NL \<notin> set (lit ''abcd'')" by (simp add: lit_def NL_def)
  from carry_is_trailing_partial_line[OF m1] n1
  have "\<exists>pre. lit ''a\<newline>b\<newline>'' = pre @ NL # []"
    by (simp add: chunk_of_def carry_out_def)
  moreover from carry_is_trailing_partial_line[OF m2] n2
  have "carry_out ?it2 = lit ''abcd''"
    by (simp add: chunk_of_def)
  ultimately show ?thesis using m1 m2 n1 n2 by blast
qed

text \<open>
  C6. For a file with no newline that is longer than the (positive) chunk size: the
  first pass copies the first \<open>chunk_size\<close> characters and leaves them as the carry;
  every later pass starts and ends in that same state \<open>stalled\<close>, asks \<^verbatim>\<open>f.read\<close> for 0
  characters and copies the same chunk again; the rest of the file stays unread, and
  the run never returns. The effects of the first \<open>n + 1\<close> passes are \<open>n + 1\<close> times
  the same three: \<^verbatim>\<open>pyperclip.copy\<close> of that decorated chunk, the message and the pause.
\<close>

theorem long_line_stalls:
  assumes "NL \<notin> set content" and "0 < chunk_size" and "chunk_size < int (length content)"
  shows "let first = take (nat chunk_size) content;
             stalled = \<lparr>unread = drop (nat chunk_size) content, prepend = first\<rparr>
         in iterations (Suc n) chunk_size (start content)
              = (start content, first, stalled) # replicate n (stalled, first, stalled)
            \<and> read_size chunk_size stalled = 0
            \<and> unread stalled \<noteq> []
            \<and> split_chinked_lines content chunk_size = None
            \<and> events_of (iterations (Suc n) chunk_size (start content))
                = concat (replicate (Suc n)
                    [Copy (decorate first), Print (lit ''copied chunk to clipboard''), Sleep 3])"
proof -
  let ?first = "take (nat chunk_size) content"
  let ?stalled = "\<lparr>unread = drop (nat chunk_size) content, prepend = ?first\<rparr>"
  note first = stall_first_pass[OF assms]
  note again = stall_next_pass[OF assms]
  have its: "iterations (Suc n) chunk_size (start content)
      = (start content, ?first, ?stalled) # replicate n (?stalled, ?first, ?stalled)"
    by (simp add: first repeating_pass(1)[OF again])
  moreover have "read_size chunk_size ?stalled = 0"
    using assms(2,3) by (simp add: read_size_def)
  moreover have "unread ?stalled \<noteq> []"
    using assms(2,3) by simp
  moreover have "split_chinked_lines content chunk_size = None"
    unfolding split_chinked_lines_def using first again by (rule stall_never_returns)
  moreover have "events_of (iterations (Suc n) chunk_size (start content))
      = concat (replicate (Suc n)
          [Copy (decorate ?first), Print (lit ''copied chunk to clipboard''), Sleep 3])"
    unfolding its events_of_Cons events_of_replicate
    by (simp add: chunk_of_def effects_def)
  ultimately show ?thesis by (simp only: Let_def) blast
qed

text \<open>
  The file \<^verbatim>\<open>"abcdef"\<close> with chunk size 4, three passes.
\<close>

theorem long_line_stalls_witness:
  "NL \<notin> set (lit ''abcdef'') \<and> (0::int) < 4 \<and> 4 < int (length (lit ''abcdef''))
   \<and> iterations (Suc 2) 4 (start (lit ''abcdef''))
       = (start (lit ''abcdef''), lit ''abcd'', \<lparr>unread = lit ''ef'', prepend = lit ''abcd''\<rparr>)
         # replicate 2 (\<lparr>unread = lit ''ef'', prepend = lit ''abcd''\<rparr>, lit ''abcd'',
             \<lparr>unread = lit ''ef'', prepend = lit ''abcd''\<rparr>)
   \<and> read_size 4 \<lparr>unread = lit ''ef'', prepend = lit ''abcd''\<rparr> = 0
   \<and> unread \<lparr>unread = lit ''ef'', prepend = lit ''abcd''\<rparr> \<noteq> []
   \<and> split_chinked_lines (lit ''abcdef'') 4 = None
   \<and> events_of (iterations (Suc 2) 4 (start (lit ''abcdef'')))
       = concat (replicate (Suc 2)
           [Copy (decorate (lit ''abcd'')), Print (lit ''copied chunk to clipboard''), Sleep 3])"
proof -
  have h: "NL \<notin> set (lit ''abcdef'')" "(0::int) < 4" "4 < int (length (lit ''abcdef''))"
    by (simp_all add: lit_def NL_def)
  have t: "take (nat 4) (lit ''abcdef'') = lit ''abcd''"
    and d: "drop (nat 4) (lit ''abcdef'') = lit ''ef''"
    by (simp_all add: lit_def)
  note stalls = long_line_stalls[OF h, of 2, unfolded Let_def t d]
  from h stalls show ?thesis by blast
qed

text \<open>
  C7. On an empty file the program copies no chunk: the run returns with the empty
  trace of effects, so \<^verbatim>\<open>pyperclip.copy\<close> is never called, and no pass is recorded.
  This holds for every chunk size.
\<close>

theorem empty_file_copies_nothing:
  "split_chinked_lines [] chunk_size = Some []
   \<and> iterations n chunk_size (start []) = []"
proof
  show "split_chinked_lines [] chunk_size = Some []"
    unfolding split_chinked_lines_def
    by (subst while_loop.simps) (simp add: loop_body_empty_file)
  show "iterations n chunk_size (start []) = []"
    by (cases n) (simp_all add: loop_body_empty_file)
qed

text \<open>
  C8. Every text given to \<^verbatim>\<open>pyperclip.copy\<close> in a run is the chunk of one of its passes
  between the same two literals, \<^verbatim>\<open>"```ansi "\<close> before and \<^verbatim>\<open>"```"\<close> after; and with the
  default chunk size, 2000 - 11, such a text has at most 2000 characters.
\<close>

theorem copied_text_is_decorated_chunk:
  "(Copy t \<in> set (events_of (iterations n chunk_size (start content))) \<longrightarrow>
      (\<exists>it \<in> set (iterations n chunk_size (start content)).
          t = lit ''```ansi '' @ chunk_of it @ lit ''```''))
   \<and> (Copy t \<in> set (events_of (iterations n default_chunk_size (start content))) \<longrightarrow>
      length t \<le> 2000)"
proof (intro conjI impI)
  assume "Copy t \<in> set (events_of (iterations n chunk_size (start content)))"
  then show "\<exists>it \<in> set (iterations n chunk_size (start content)).
      t = lit ''```ansi '' @ chunk_of it @ lit ''```''"
    by (simp add: Copy_in_events_of decorate_def)
next
  assume "Copy t \<in> set (events_of (iterations n default_chunk_size (start content)))"
  then obtain it where it: "it \<in> set (iterations n default_chunk_size (start content))"
    and t: "t = decorate (chunk_of it)"
    by (auto simp: Copy_in_events_of)
  have "0 \<le> default_chunk_size" by (simp add: default_chunk_size_def)
  from chunk_bounded[OF this it] have "length (chunk_of it) \<le> 1989"
    by (simp add: default_chunk_size_def)
  then show "length t \<le> 2000" by (simp add: t decorate_length)
qed

text \<open>
  The file \<^verbatim>\<open>"ab"\<close> with the default chunk size: the first pass copies \<^verbatim>\<open>"```ansi ab```"\<close>.
\<close>

theorem copied_text_is_decorated_chunk_witness:
  "Copy (lit ''```ansi ab```'')
      \<in> set (events_of (iterations 1 default_chunk_size (start (lit ''ab''))))
   \<and> (\<exists>it \<in> set (iterations 1 default_chunk_size (start (lit ''ab''))).
         lit ''```ansi ab```'' = lit ''```ansi '' @ chunk_of it @ lit ''```'')
   \<and> length (lit ''```ansi ab```'') \<le> 2000"
proof -
  have "events_of (iterations 1 default_chunk_size (start (lit ''ab''))) = effects (lit ''ab'')"
    by (simp add: pass_ab_default events_of_def chunk_of_def)
  then have m: "Copy (lit ''```ansi ab```'')
      \<in> set (events_of (iterations 1 default_chunk_size (start (lit ''ab''))))"
    by (simp add: effects_def decorate_def lit_def)
  from copied_text_is_decorated_chunk
    [of "lit ''```ansi ab```''" 1 default_chunk_size "lit ''ab''"] m
  show ?thesis by blast
qed

text \<open>
  C9. The effects of a run are, pass after pass, the copy, the message and
  \<^verbatim>\<open>time.sleep(3)\<close>, so every copy is followed by the pause before the next copy. Time is
  the clock of \<open>copy_times\<close>, which only the pauses advance: between two consecutive
  copies at least 3 seconds pass on it, whatever the time \<open>now\<close> the run starts at.
\<close>

theorem pause_between_copies:
  "events_of (iterations n chunk_size (start content))
     = concat (map (\<lambda>it. [Copy (decorate (chunk_of it)), Print (lit ''copied chunk to clipboard''), Sleep 3])
         (iterations n chunk_size (start content)))
   \<and> (\<forall>i. Suc i < length (copy_times now (events_of (iterations n chunk_size (start content)))) \<longrightarrow>
         copy_times now (events_of (iterations n chunk_size (start content))) ! i + 3
           \<le> copy_times now (events_of (iterations n chunk_size (start content))) ! Suc i)"
proof (intro conjI allI impI)
  show "events_of (iterations n chunk_size (start content))
     = concat (map (\<lambda>it. [Copy (decorate (chunk_of it)), Print (lit ''copied chunk to clipboard''), Sleep 3])
         (iterations n chunk_size (start content)))"
    by (simp add: events_of_def effects_def)
next
  fix i
  let ?its = "iterations n chunk_size (start content)"
  assume "Suc i < length (copy_times now (events_of ?its))"
  then have i: "Suc i < length ?its" by (simp add: copy_times_events_of(1))
  then have "copy_times now (events_of ?its) ! i = now + 3 * i"
    "copy_times now (events_of ?its) ! Suc i = now + 3 * Suc i"
    by (simp_all add: copy_times_events_of(2))
  then show "copy_times now (events_of ?its) ! i + 3 \<le> copy_times now (events_of ?its) ! Suc i"
    by simp
qed

text \<open>
  Two passes on \<^verbatim>\<open>"abcdef"\<close> with chunk size 4: two copies, the second at least 3 seconds
  after the first.
\<close>

theorem pause_between_copies_witness:
  "Suc 0 < length (copy_times 0 (events_of (iterations 2 4 (start (lit ''abcdef'')))))
   \<and> copy_times 0 (events_of (iterations 2 4 (start (lit ''abcdef'')))) ! 0 + 3
       \<le> copy_times 0 (events_of (iterations 2 4 (start (lit ''abcdef'')))) ! Suc 0"
proof -
  have l: "Suc 0 < length (copy_times 0 (events_of (iterations 2 4 (start (lit ''abcdef'')))))"
    by (simp add: two_passes_abcdef events_of_def effects_def)
  from pause_between_copies[of 2 4 "lit ''abcdef''" 0] l show ?thesis by blast
qed

text \<open>
  C10. The carry never contains a newline: \<^verbatim>\<open>prepend\<close> is empty at the start, it has no
  newline in the state after any number of passes, and in every pass of a run the carry
  at its start and the carry at its end have no newline. The carry at the start of a
  pass is a prefix of the chunk the pass copies, so the repeated prefix of a chunk has
  no newline.
\<close>

theorem carry_never_contains_newline:
  "prepend (start content) = []
   \<and> (\<forall>st. state_after n chunk_size (start content) = Some st \<longrightarrow> NL \<notin> set (prepend st))
   \<and> (\<forall>it \<in> set (iterations n chunk_size (start content)).
         NL \<notin> set (carry_in it) \<and> NL \<notin> set (carry_out it) \<and> prefix (carry_in it) (chunk_of it))"
proof (intro conjI allI impI ballI)
  show "prepend (start content) = []" by (simp add: start_def)
next
  fix st assume "state_after n chunk_size (start content) = Some st"
  then show "NL \<notin> set (prepend st)" by (rule prepend_newline_free)
next
  fix it assume it: "it \<in> set (iterations n chunk_size (start content))"
  then show "NL \<notin> set (carry_in it)" by (rule carry_in_newline_free)
  from it show "NL \<notin> set (carry_out it)"
    by (simp add: iterations_carry_out(1) carry_of_newline_free)
  from it show "prefix (carry_in it) (chunk_of it)" by (rule iterations_carry_out(3))
qed

text \<open>
  The file \<^verbatim>\<open>"ab\ncd"\<close> with chunk size 4: after the first pass the carry is \<^verbatim>\<open>"c"\<close>.
\<close>

theorem carry_never_contains_newline_witness:
  "state_after 1 4 (start (lit ''ab\<newline>cd'')) = Some \<lparr>unread = lit ''d'', prepend = lit ''c''\<rparr>
   \<and> NL \<notin> set (lit ''c'')
   \<and> (start (lit ''ab\<newline>cd''), lit ''ab\<newline>c'', \<lparr>unread = lit ''d'', prepend = lit ''c''\<rparr>)
        \<in> set (iterations 1 4 (start (lit ''ab\<newline>cd'')))
   \<and> NL \<notin> set (carry_out (start (lit ''ab\<newline>cd''), lit ''ab\<newline>c'', \<lparr>unread = lit ''d'', prepend = lit ''c''\<rparr>))"
proof -
  let ?st = "\<lparr>unread = lit ''d'', prepend = lit ''c''\<rparr>"
  let ?it = "(start (lit ''ab\<newline>cd''), lit ''ab\<newline>c'', ?st)"
  have s: "state_after 1 4 (start (lit ''ab\<newline>cd'')) = Some ?st"
    by (simp add: pass_ab_cd_1)
  have m: "?it \<in> set (iterations 1 4 (start (lit ''ab\<newline>cd'')))"
    by (simp add: pass_ab_cd_1)
  from carry_never_contains_newline[where n = 1 and chunk_size = 4 and content = "lit ''ab\<newline>cd''"] s m
  have "NL \<notin> set (prepend ?st)" "NL \<notin> set (carry_out ?it)" by blast+
  with s m show ?thesis by simp
qed

end
